theory Spec2Isabelle
  imports Main "HOL-Library.Word" "HOL-Library.Multiset" "HOL-Library.Sublist"
begin

section \<open>ecr-cleaner: the retention pipeline of \<^verbatim>\<open>main.go\<close>\<close>

text \<open>
  The program lists the images of a container registry repository, decides which of them
  to delete and deletes them in batches. Everything it decides is list processing on
  \<^verbatim>\<open>[]*ecr.ImageDetail\<close>; the registry, the regular expression library and
  \<^verbatim>\<open>sort.Sort\<close> are libraries outside the repository and are parameters of the model.
\<close>

subsection \<open>Data\<close>

text \<open>
  \<^verbatim>\<open>ecr.ImageDetail\<close> is declared by the AWS SDK. The program reads three of its
  fields. \<^verbatim>\<open>ImageDigest\<close> is only copied and compared with \<^verbatim>\<open>!=\<close>, so its type is a
  type parameter \<open>'d\<close> and the comparison is equality on \<open>'d\<close>. (In the SDK the
  field is a \<^verbatim>\<open>*string\<close>, which Go compares as a pointer: \<open>'d\<close> is then the type
  of these pointers, and images with different digest strings have different pointers.)
  \<^verbatim>\<open>ImageTags\<close> is the list of tag strings and
  \<^verbatim>\<open>ImagePushedAt\<close> is read through \<^verbatim>\<open>.Unix()\<close> only: the field holds that
  number of seconds. An image is a snapshot value; the registry never hands out nil
  images, tags or timestamps, and the model has none.
\<close>

record 'd ImageDetail =
  ImageDigest :: 'd
  ImageTags :: "string list"
  ImagePushedAt :: int

text \<open>\<^verbatim>\<open>type TagFiltering struct { regExp string; action string }\<close>\<close>

record TagFiltering =
  regExp :: string
  action :: string

text \<open>
  Go's \<^verbatim>\<open>int\<close> on a 64-bit platform: subtraction wraps, comparison is signed.
  \<^verbatim>\<open>len\<close> of a slice is an \<^verbatim>\<open>int\<close>.
\<close>

type_synonym go_int = "64 word"

definition len :: "'a list \<Rightarrow> go_int" where
  "len xs = word_of_nat (length xs)"

text \<open>
  A Go \<^verbatim>\<open>error\<close> built by \<^verbatim>\<open>fmt.Errorf\<close> is its message; \<^verbatim>\<open>nil\<close> is \<open>None\<close>.
  A run-time panic is a value of its own.
\<close>

type_synonym error = "string option"

datatype panic = SliceBoundsOutOfRange int int

subsection \<open>Library functions the program calls\<close>

text \<open>
  \<^verbatim>\<open>strings.Contains(s, substr)\<close>: \<open>substr\<close> occurs in \<open>s\<close> as a contiguous
  run of bytes (the empty string occurs in every string).
\<close>

fun HasPrefix :: "string \<Rightarrow> string \<Rightarrow> bool" where
  "HasPrefix s [] = True"
| "HasPrefix [] (c # cs) = False"
| "HasPrefix (a # s) (c # cs) = (a = c \<and> HasPrefix s cs)"

fun Contains :: "string \<Rightarrow> string \<Rightarrow> bool" where
  "Contains [] substr = (substr = [])"
| "Contains (a # s) substr = (HasPrefix (a # s) substr \<or> Contains s substr)"

text \<open>
  \<^verbatim>\<open>strings.ToLower\<close> on ASCII: the letters A-Z move to a-z, every other byte stays.
  (Go also lower-cases letters beyond ASCII; none of them becomes one of the letters of
  \<^verbatim>\<open>deletesave\<close> except through A-Z.)
\<close>

definition toLowerChar :: "char \<Rightarrow> char" where
  "toLowerChar c =
     (let n = (of_char c :: nat) in if 65 \<le> n \<and> n \<le> 90 then char_of (n + 32) else c)"

definition ToLower :: "string \<Rightarrow> string" where
  "ToLower s = map toLowerChar s"

text \<open>
  Package \<^verbatim>\<open>regexp\<close>: \<^verbatim>\<open>Compile\<close> gives an error or a compiled expression, a
  compiled expression matches a string or not, and \<^verbatim>\<open>regexp.MatchString(pattern, s)\<close>
  compiles the pattern and matches, returning the compile error if there is one.
\<close>

record 're regexp =
  Compile :: "string \<Rightarrow> string + 're"
  Match :: "'re \<Rightarrow> string \<Rightarrow> bool"

definition MatchString :: "'re regexp \<Rightarrow> string \<Rightarrow> string \<Rightarrow> string + bool" where
  "MatchString rx pattern s =
     (case Compile rx pattern of Inl err \<Rightarrow> Inl err | Inr re \<Rightarrow> Inr (Match rx re s))"

text \<open>
  \<^verbatim>\<open>sort.Sort(byTime(p))\<close> is a parameter \<open>srt\<close> of the model. The program gives
  it the three methods of \<^verbatim>\<open>byTime\<close>; the library's contract is that it rearranges the
  slice by calls of \<^verbatim>\<open>Swap\<close> until no later element is \<^verbatim>\<open>Less\<close> than an earlier
  one. The library documents that the sort is not guaranteed to be stable.
\<close>

definition byTime_Len :: "'d ImageDetail list \<Rightarrow> nat" where
  "byTime_Len p = length p"

definition byTime_Less :: "'d ImageDetail list \<Rightarrow> nat \<Rightarrow> nat \<Rightarrow> bool" where
  "byTime_Less p i j = (ImagePushedAt (p ! i) < ImagePushedAt (p ! j))"

definition byTime_Swap :: "'d ImageDetail list \<Rightarrow> nat \<Rightarrow> nat \<Rightarrow> 'd ImageDetail list" where
  "byTime_Swap p i j = p[i := p ! j, j := p ! i]"

definition sort_Sort_contract :: "('d ImageDetail list \<Rightarrow> 'd ImageDetail list) \<Rightarrow> bool" where
  "sort_Sort_contract srt =
     (\<forall>p. mset (srt p) = mset p \<and>
          (\<forall>i j. i < j \<and> j < byTime_Len (srt p) \<longrightarrow> \<not> byTime_Less (srt p) j i))"

subsection \<open>The pure functions\<close>

text \<open>
  \<^verbatim>\<open>separateHavingTag\<close>: one pass over the images, appending each to one of the two
  results, both \<^verbatim>\<open>nil\<close> at the start.
\<close>

fun separateHavingTag_loop ::
  "'d ImageDetail list \<Rightarrow> 'd ImageDetail list \<Rightarrow> 'd ImageDetail list \<Rightarrow>
   'd ImageDetail list \<times> 'd ImageDetail list" where
  "separateHavingTag_loop [] imagesWithoutTag imagesWithTag = (imagesWithoutTag, imagesWithTag)"
| "separateHavingTag_loop (img # rest) imagesWithoutTag imagesWithTag =
     (if length (ImageTags img) = 0
      then separateHavingTag_loop rest (imagesWithoutTag @ [img]) imagesWithTag
      else separateHavingTag_loop rest imagesWithoutTag (imagesWithTag @ [img]))"

definition separateHavingTag ::
  "'d ImageDetail list \<Rightarrow> 'd ImageDetail list \<times> 'd ImageDetail list" where
  "separateHavingTag images = separateHavingTag_loop images [] []"

text \<open>
  \<^verbatim>\<open>filterTags\<close>. The inner loop over the tags of one image stops at the first match
  (\<^verbatim>\<open>break\<close>) and ends the process with \<^verbatim>\<open>log.Fatal\<close> when
  \<^verbatim>\<open>regexp.MatchString\<close> returns an error: \<open>Inl\<close> carries the message. After the
  inner loop the image goes to the second result when the first result is empty or its
  last element has another digest.
\<close>

fun filterTags_tags :: "'re regexp \<Rightarrow> string \<Rightarrow> string list \<Rightarrow> string + bool" where
  "filterTags_tags rx tagRE [] = Inr False"
| "filterTags_tags rx tagRE (tag # tags) =
     (case MatchString rx tagRE tag of
        Inl err \<Rightarrow> Inl err
      | Inr matched \<Rightarrow> if matched then Inr True else filterTags_tags rx tagRE tags)"

fun filterTags_loop ::
  "'re regexp \<Rightarrow> string \<Rightarrow> 'd ImageDetail list \<Rightarrow> 'd ImageDetail list \<Rightarrow> 'd ImageDetail list \<Rightarrow>
   string + ('d ImageDetail list \<times> 'd ImageDetail list)" where
  "filterTags_loop rx tagRE [] imagesWithRETags imgsWoRETags =
     Inr (imagesWithRETags, imgsWoRETags)"
| "filterTags_loop rx tagRE (img # rest) imagesWithRETags imgsWoRETags =
     (case filterTags_tags rx tagRE (ImageTags img) of
        Inl err \<Rightarrow> Inl err
      | Inr matched \<Rightarrow>
          (let imagesWithRETags' =
                 (if matched then imagesWithRETags @ [img] else imagesWithRETags);
               imgsWoRETags' =
                 (if length imagesWithRETags' = 0 \<or>
                     ImageDigest (last imagesWithRETags') \<noteq> ImageDigest img
                  then imgsWoRETags @ [img] else imgsWoRETags)
           in filterTags_loop rx tagRE rest imagesWithRETags' imgsWoRETags'))"

definition filterTags ::
  "'re regexp \<Rightarrow> 'd ImageDetail list \<Rightarrow> string \<Rightarrow>
   string + ('d ImageDetail list \<times> 'd ImageDetail list)" where
  "filterTags rx images tagRE =
     (if tagRE = [] then Inr (images, [])
      else filterTags_loop rx tagRE images [] [])"

text \<open>
  \<^verbatim>\<open>imagesToRemove\<close>. The guard compares two \<^verbatim>\<open>int\<close>s; the upper bound of the
  slice expression is their wrapping difference. Go checks a slice expression at run time
  and panics with "slice bounds out of range". The model keeps no spare capacity behind a
  slice: an upper bound that is negative or beyond \<^verbatim>\<open>len(images)\<close> is the panic value
  (Go itself compares with \<^verbatim>\<open>cap(images)\<close>, and an upper bound between the length and
  the capacity would read the slots of the backing array behind the slice).
\<close>

definition sliceUpper :: "'a list \<Rightarrow> go_int \<Rightarrow> go_int" where
  "sliceUpper images amountToKeep = len images - amountToKeep"

definition imagesToRemove :: "'a list \<Rightarrow> go_int \<Rightarrow> panic + 'a list" where
  "imagesToRemove images amountToKeep =
     (if len images <s amountToKeep then Inr []
      else (let hi = sliceUpper images amountToKeep in
            if 0 \<le>s hi \<and> hi \<le>s len images then Inr (take (nat (sint hi)) images)
            else Inl (SliceBoundsOutOfRange (sint hi) (int (length images)))))"

text \<open>\<^verbatim>\<open>buildImageIdentifier\<close>: an identifier holds the digest of its image.\<close>

fun buildImageIdentifier_loop :: "'d ImageDetail list \<Rightarrow> 'd list \<Rightarrow> 'd list" where
  "buildImageIdentifier_loop [] imageIdentifiers = imageIdentifiers"
| "buildImageIdentifier_loop (img # rest) imageIdentifiers =
     buildImageIdentifier_loop rest (imageIdentifiers @ [ImageDigest img])"

definition buildImageIdentifier :: "'d ImageDetail list \<Rightarrow> 'd list" where
  "buildImageIdentifier images = buildImageIdentifier_loop images []"

subsection \<open>The registry\<close>

text \<open>
  The ECR client is outside the repository. Its three operations are parameters: each
  takes the state \<open>'r\<close> of the registry and returns its answer and the state after the
  call. The world of a run is that state and the list of the calls made so far, oldest
  first.
\<close>

record ('d, 'r) ecrCli =
  describeRepositories :: "'r \<Rightarrow> (string + string list) \<times> 'r"
  describeImages ::
    "'r \<Rightarrow> string \<Rightarrow> string option \<Rightarrow> (string + ('d ImageDetail list \<times> string option)) \<times> 'r"
  batchDeleteImage :: "'r \<Rightarrow> string \<Rightarrow> 'd list \<Rightarrow> error \<times> 'r"

datatype 'd apiCall =
  DescribeRepositories
| DescribeImages string "string option"
| BatchDeleteImage string "'d list"

record ('d, 'r) world =
  registry :: 'r
  calls :: "'d apiCall list"

definition callDescribeRepositories ::
  "('d, 'r) ecrCli \<Rightarrow> ('d, 'r) world \<Rightarrow> (string + string list) \<times> ('d, 'r) world" where
  "callDescribeRepositories ecr w =
     (case describeRepositories ecr (registry w) of
        (resp, r') \<Rightarrow> (resp, \<lparr>registry = r', calls = calls w @ [DescribeRepositories]\<rparr>))"

definition callDescribeImages ::
  "('d, 'r) ecrCli \<Rightarrow> ('d, 'r) world \<Rightarrow> string \<Rightarrow> string option \<Rightarrow>
   (string + ('d ImageDetail list \<times> string option)) \<times> ('d, 'r) world" where
  "callDescribeImages ecr w repoName token =
     (case describeImages ecr (registry w) repoName token of
        (resp, r') \<Rightarrow> (resp, \<lparr>registry = r', calls = calls w @ [DescribeImages repoName token]\<rparr>))"

definition callBatchDeleteImage ::
  "('d, 'r) ecrCli \<Rightarrow> ('d, 'r) world \<Rightarrow> string \<Rightarrow> 'd list \<Rightarrow> error \<times> ('d, 'r) world" where
  "callBatchDeleteImage ecr w repoName imageIds =
     (case batchDeleteImage ecr (registry w) repoName imageIds of
        (err, r') \<Rightarrow> (err, \<lparr>registry = r', calls = calls w @ [BatchDeleteImage repoName imageIds]\<rparr>))"

subsection \<open>Deleting\<close>

text \<open>\<^verbatim>\<open>fmt.Errorf("deleting images in repo %v: %v", repoName, err)\<close>\<close>

definition deletingError :: "string \<Rightarrow> string \<Rightarrow> string" where
  "deletingError repoName err = ''deleting images in repo '' @ repoName @ '': '' @ err"

definition deleteImages ::
  "('d, 'r) ecrCli \<Rightarrow> ('d, 'r) world \<Rightarrow> string \<Rightarrow> 'd ImageDetail list \<Rightarrow> error \<times> ('d, 'r) world" where
  "deleteImages ecr w repoName images =
     (let imageIdentifiers = buildImageIdentifier images in
      case callBatchDeleteImage ecr w repoName imageIdentifiers of
        (Some err, w') \<Rightarrow> (Some (deletingError repoName err), w')
      | (None, w') \<Rightarrow> (None, w'))"

text \<open>
  The slice expression \<^verbatim>\<open>s[lo:hi]\<close> where the program keeps
  \<open>lo \<le> hi \<le> length s\<close>, and \<^verbatim>\<open>s[lo:]\<close> with \<open>lo \<le> length s\<close>.
\<close>

definition sliceRange :: "'a list \<Rightarrow> nat \<Rightarrow> nat \<Rightarrow> 'a list" where
  "sliceRange s lo hi = take (hi - lo) (drop lo s)"

definition sliceFrom :: "'a list \<Rightarrow> nat \<Rightarrow> 'a list" where
  "sliceFrom s lo = drop lo s"

text \<open>
  The first part of \<^verbatim>\<open>cleanupImages\<close> (to the line that logs the number of images
  to delete): the deletion plan \<^verbatim>\<open>deleteImageIDs\<close>. The process ends inside it when
  \<^verbatim>\<open>filterTags\<close> calls \<^verbatim>\<open>log.Fatal\<close> or \<^verbatim>\<open>imagesToRemove\<close> panics.
  \<open>candidates\<close> is the filtering and the choice by the post-filter action: the list
  the program sorts.
\<close>

datatype stop = Fatal string | Panic panic

definition candidates ::
  "'re regexp \<Rightarrow> 'd ImageDetail list \<Rightarrow> TagFiltering \<Rightarrow> string + 'd ImageDetail list" where
  "candidates rx imagesWithTag tagFilter =
     (case filterTags rx imagesWithTag (regExp tagFilter) of
        Inl err \<Rightarrow> Inl err
      | Inr (imagesWithRETag, imagesWoRETag) \<Rightarrow>
          Inr (if Contains (action tagFilter) ''delete''
               then imagesWithRETag else imagesWoRETag))"

definition deletionPlan ::
  "'re regexp \<Rightarrow> ('d ImageDetail list \<Rightarrow> 'd ImageDetail list) \<Rightarrow> 'd ImageDetail list \<Rightarrow>
   go_int \<Rightarrow> TagFiltering \<Rightarrow> stop + 'd ImageDetail list" where
  "deletionPlan rx srt images amountToKeep tagFilter =
     (case separateHavingTag images of
        (imagesNoTag, imagesWithTag) \<Rightarrow>
          (case candidates rx imagesWithTag tagFilter of
             Inl err \<Rightarrow> Inl (Fatal err)
           | Inr imagesWithTag' \<Rightarrow>
               (let deleteImageIDs = [] @ imagesNoTag in
                case imagesToRemove (srt imagesWithTag') amountToKeep of
                  Inl p \<Rightarrow> Inl (Panic p)
                | Inr imagesWithTagToRemove \<Rightarrow>
                    Inr (deleteImageIDs @ imagesWithTagToRemove))))"

text \<open>
  The loop \<^verbatim>\<open>for i = 0; i < int(len(deleteImageIDs)/100); i++\<close>: it returns the error
  of the first failed call, or \<^verbatim>\<open>nil\<close>, with the value of \<open>i\<close> and the world.
\<close>

function cleanupImages_loop ::
  "('d, 'r) ecrCli \<Rightarrow> ('d, 'r) world \<Rightarrow> string \<Rightarrow> 'd ImageDetail list \<Rightarrow> nat \<Rightarrow>
   error \<times> nat \<times> ('d, 'r) world" where
  "cleanupImages_loop ecr w repoName deleteImageIDs i =
     (if i < length deleteImageIDs div 100
      then (case deleteImages ecr w repoName (sliceRange deleteImageIDs (i * 100) ((i + 1) * 100)) of
              (Some err, w') \<Rightarrow> (Some (deletingError repoName err), i, w')
            | (None, w') \<Rightarrow> cleanupImages_loop ecr w' repoName deleteImageIDs (i + 1))
      else (None, i, w))"
  by pat_completeness auto
termination
  by (relation "measure (\<lambda>(ecr, w, repoName, deleteImageIDs, i). length deleteImageIDs div 100 - i)")
    auto

text \<open>
  The second part of \<^verbatim>\<open>cleanupImages\<close>, from the dry-run test on. The result is the
  error the function returns (\<open>None\<close> for \<^verbatim>\<open>nil\<close>) and the world it leaves.
\<close>

definition executePlan ::
  "('d, 'r) ecrCli \<Rightarrow> ('d, 'r) world \<Rightarrow> string \<Rightarrow> 'd ImageDetail list \<Rightarrow> bool \<Rightarrow>
   error \<times> ('d, 'r) world" where
  "executePlan ecr w repoName deleteImageIDs dryRun =
     (if dryRun then (None, w)
      else if length deleteImageIDs \<le> 0 then (None, w)
      else (case cleanupImages_loop ecr w repoName deleteImageIDs 0 of
              (Some err, i, w') \<Rightarrow> (Some err, w')
            | (None, i, w') \<Rightarrow>
                (case deleteImages ecr w' repoName (sliceFrom deleteImageIDs (i * 100)) of
                   (Some err, w'') \<Rightarrow> (Some (deletingError repoName err), w'')
                 | (None, w'') \<Rightarrow> (None, w''))))"

definition cleanupImages ::
  "('d, 'r) ecrCli \<Rightarrow> 're regexp \<Rightarrow> ('d ImageDetail list \<Rightarrow> 'd ImageDetail list) \<Rightarrow>
   ('d, 'r) world \<Rightarrow> string \<Rightarrow> 'd ImageDetail list \<Rightarrow> bool \<Rightarrow> go_int \<Rightarrow> TagFiltering \<Rightarrow>
   (stop + error) \<times> ('d, 'r) world" where
  "cleanupImages ecr rx srt w repoName images dryRun amountToKeep tagFilter =
     (case deletionPlan rx srt images amountToKeep tagFilter of
        Inl s \<Rightarrow> (Inl s, w)
      | Inr deleteImageIDs \<Rightarrow>
          (case executePlan ecr w repoName deleteImageIDs dryRun of
             (err, w') \<Rightarrow> (Inr err, w')))"

subsection \<open>Fetching and the main function\<close>

text \<open>
  \<^verbatim>\<open>getImages\<close> follows the continuation tokens until the registry returns none.
  Nothing bounds the number of pages, so the loop is a partial function: \<open>None\<close> is a
  run that never returns.
\<close>

definition gettingError :: "string \<Rightarrow> string \<Rightarrow> string" where
  "gettingError repoName err = ''getting '' @ repoName @ '' image details: '' @ err"

partial_function (option) getImages_loop ::
  "('d, 'r) ecrCli \<Rightarrow> string \<Rightarrow> string option \<Rightarrow> 'd ImageDetail list \<Rightarrow> ('d, 'r) world \<Rightarrow>
   ((string + 'd ImageDetail list) \<times> ('d, 'r) world) option" where
  "getImages_loop ecr repoName token imageIDs w =
     (case callDescribeImages ecr w repoName token of
        (Inl err, w') \<Rightarrow> Some (Inl (gettingError repoName err), w')
      | (Inr (imageDetails, nextToken), w') \<Rightarrow>
          (case nextToken of
             None \<Rightarrow> Some (Inr (imageIDs @ imageDetails), w')
           | Some t \<Rightarrow> getImages_loop ecr repoName (Some t) (imageIDs @ imageDetails) w'))"

definition getImages ::
  "('d, 'r) ecrCli \<Rightarrow> ('d, 'r) world \<Rightarrow> string \<Rightarrow>
   ((string + 'd ImageDetail list) \<times> ('d, 'r) world) option" where
  "getImages ecr w repoName = getImages_loop ecr repoName None [] w"

definition getAllRepoNames ::
  "('d, 'r) ecrCli \<Rightarrow> ('d, 'r) world \<Rightarrow> (string + string list) \<times> ('d, 'r) world" where
  "getAllRepoNames ecr w =
     (case callDescribeRepositories ecr w of
        (Inl err, w') \<Rightarrow> (Inl (''getting ecr repos: '' @ err), w')
      | (Inr repositories, w') \<Rightarrow> (Inr repositories, w'))"

text \<open>
  The command line after \<^verbatim>\<open>flag.Parse\<close>: one field for each flag. \<^verbatim>\<open>flag.Int\<close>
  accepts every value of \<^verbatim>\<open>int\<close>.
\<close>

record flags =
  flag_keep :: go_int
  flag_aws_region :: string
  flag_repo :: string
  flag_dry_run :: bool
  flag_tag_regexp :: string
  flag_post_filter_action :: string

text \<open>
  How the process ends: \<^verbatim>\<open>main\<close> returns (status 0), \<^verbatim>\<open>log.Fatal\<close> prints its
  message and exits with status 1, a panic exits with status 2.
\<close>

datatype exit = Exit0 | ExitFatal string | ExitPanic panic

fun exitStatus :: "exit \<Rightarrow> nat" where
  "exitStatus Exit0 = 0"
| "exitStatus (ExitFatal msg) = 1"
| "exitStatus (ExitPanic p) = 2"

fun main_loop ::
  "('d, 'r) ecrCli \<Rightarrow> 're regexp \<Rightarrow> ('d ImageDetail list \<Rightarrow> 'd ImageDetail list) \<Rightarrow>
   flags \<Rightarrow> TagFiltering \<Rightarrow> string list \<Rightarrow> ('d, 'r) world \<Rightarrow> (exit \<times> ('d, 'r) world) option" where
  "main_loop ecr rx srt fl tagFilter [] w = Some (Exit0, w)"
| "main_loop ecr rx srt fl tagFilter (repoName # repos) w =
     (case getImages ecr w repoName of
        None \<Rightarrow> None
      | Some (Inl err, w') \<Rightarrow>
          Some (ExitFatal (''Could not retrieve images for repo '' @ repoName @ '': '' @ err), w')
      | Some (Inr images, w') \<Rightarrow>
          (case cleanupImages ecr rx srt w' repoName images (flag_dry_run fl) (flag_keep fl) tagFilter of
             (Inl (Fatal msg), w'') \<Rightarrow> Some (ExitFatal msg, w'')
           | (Inl (Panic p), w'') \<Rightarrow> Some (ExitPanic p, w'')
           | (Inr (Some err), w'') \<Rightarrow>
               Some (ExitFatal (''Could not clean up images for repo '' @ repoName @ '': '' @ err), w'')
           | (Inr None, w'') \<Rightarrow> main_loop ecr rx srt fl tagFilter repos w''))"

definition main ::
  "('d, 'r) ecrCli \<Rightarrow> 're regexp \<Rightarrow> ('d ImageDetail list \<Rightarrow> 'd ImageDetail list) \<Rightarrow>
   flags \<Rightarrow> ('d, 'r) world \<Rightarrow> (exit \<times> ('d, 'r) world) option" where
  "main ecr rx srt fl w =
     (case Compile rx (flag_tag_regexp fl) of
        Inl err \<Rightarrow> Some (ExitFatal err, w)
      | Inr re \<Rightarrow>
          (let tagFilter = \<lparr>regExp = flag_tag_regexp fl,
                            action = ToLower (flag_post_filter_action fl)\<rparr> in
           if \<not> Contains ''deletesave'' (action tagFilter)
           then Some (ExitFatal (''Incorrect value '' @ action tagFilter @
                                 '' . only delete and save are supported''), w)
           else (case (if flag_repo fl = []
                       then getAllRepoNames ecr w
                       else (Inr [flag_repo fl], w)) of
                   (Inl err, w') \<Rightarrow> Some (ExitFatal err, w')
                 | (Inr repos, w') \<Rightarrow> main_loop ecr rx srt fl tagFilter repos w')))"

subsection \<open>The calls of a run\<close>

text \<open>
  Two functions to speak about what a run does to the registry. \<open>batches\<close> lists the
  slices that \<^verbatim>\<open>cleanupImages\<close> passes to \<^verbatim>\<open>deleteImages\<close> when no call fails:
  one for each round of the loop, then the rest after the loop. \<open>replay\<close> makes the
  given delete calls one after the other, whatever they answer, and returns the answers
  and the state of the registry after the last call.
\<close>

definition batches :: "'a list \<Rightarrow> 'a list list" where
  "batches deleteImageIDs =
     map (\<lambda>i. sliceRange deleteImageIDs (i * 100) ((i + 1) * 100)) [0..<length deleteImageIDs div 100] @
     [sliceFrom deleteImageIDs (length deleteImageIDs div 100 * 100)]"

fun replay :: "('d, 'r) ecrCli \<Rightarrow> string \<Rightarrow> 'r \<Rightarrow> 'd list list \<Rightarrow> error list \<times> 'r" where
  "replay ecr repoName r [] = ([], r)"
| "replay ecr repoName r (imageIds # rest) =
     (case batchDeleteImage ecr r repoName imageIds of
        (err, r') \<Rightarrow>
          (case replay ecr repoName r' rest of (errs, r'') \<Rightarrow> (err # errs, r'')))"

text \<open>
  \<open>deleteInOrder\<close> is the shape of the deleting part of \<^verbatim>\<open>cleanupImages\<close>, used in
  the proofs: \<^verbatim>\<open>deleteImages\<close> on each slice of a list in turn, returning at the first
  error as the program does.
\<close>

fun deleteInOrder ::
  "('d, 'r) ecrCli \<Rightarrow> ('d, 'r) world \<Rightarrow> string \<Rightarrow> 'd ImageDetail list list \<Rightarrow>
   error \<times> ('d, 'r) world" where
  "deleteInOrder ecr w repoName [] = (None, w)"
| "deleteInOrder ecr w repoName (images # rest) =
     (case deleteImages ecr w repoName images of
        (Some err, w') \<Rightarrow> (Some (deletingError repoName err), w')
      | (None, w') \<Rightarrow> deleteInOrder ecr w' repoName rest)"

subsection \<open>Example environments\<close>

text \<open>
  Concrete values for the parameters, used to run the definitions: images with natural
  numbers as digests, and a regular expression library for patterns without
  metacharacters (such a pattern matches the strings that contain it; a pattern with an
  opening parenthesis does not compile).
\<close>

definition exampleImage :: "nat \<Rightarrow> string list \<Rightarrow> int \<Rightarrow> nat ImageDetail" where
  "exampleImage d tags t = \<lparr>ImageDigest = d, ImageTags = tags, ImagePushedAt = t\<rparr>"

definition literalRegexp :: "string regexp" where
  "literalRegexp =
     \<lparr>Compile = (\<lambda>pattern. if Contains pattern ''('' then Inl ''missing closing )'' else Inr pattern),
      Match = (\<lambda>re s. Contains s re)\<rparr>"

text \<open>
  A registry with one repository whose images come in a single page and which accepts
  every delete call, and the world before the first call.
\<close>

definition singlePage :: "'d ImageDetail list \<Rightarrow> ('d, unit) ecrCli" where
  "singlePage images =
     \<lparr>describeRepositories = (\<lambda>r. (Inr [''repo''], r)),
      describeImages = (\<lambda>r repoName token. (Inr (images, None), r)),
      batchDeleteImage = (\<lambda>r repoName imageIds. (None, r))\<rparr>"

definition start :: "('d, unit) world" where
  "start = \<lparr>registry = (), calls = []\<rparr>"

text \<open>
  A procedure that meets the contract of \<^verbatim>\<open>sort.Sort\<close> and puts images with equal
  push times in the reverse of their input order.
\<close>

definition sortTiesReversed :: "'d ImageDetail list \<Rightarrow> 'd ImageDetail list" where
  "sortTiesReversed p = rev (sort_key (\<lambda>img. - ImagePushedAt img) p)"

text \<open>The untagged images with the digests \<open>0, \<dots>, n - 1\<close>.\<close>

definition untaggedImages :: "nat \<Rightarrow> nat ImageDetail list" where
  "untaggedImages n = map (\<lambda>d. exampleImage d [] (int d)) [0..<n]"

text \<open>A registry like \<open>singlePage\<close> whose delete calls fail from the given call on.\<close>

definition failingFrom :: "'d ImageDetail list \<Rightarrow> nat \<Rightarrow> ('d, nat) ecrCli" where
  "failingFrom images n =
     \<lparr>describeRepositories = (\<lambda>r. (Inr [''repo''], r)),
      describeImages = (\<lambda>r repoName token. (Inr (images, None), r)),
      batchDeleteImage = (\<lambda>r repoName imageIds. (if n \<le> r + 1 then Some ''throttled'' else None, r + 1))\<rparr>"

section \<open>Properties\<close>

subsection \<open>The partitioner\<close>

lemma separateHavingTag_loop_filter:
  "separateHavingTag_loop images wo w =
     (wo @ filter (\<lambda>img. ImageTags img = []) images,
      w @ filter (\<lambda>img. ImageTags img \<noteq> []) images)"
  by (induction images arbitrary: wo w) simp_all

lemma separateHavingTag_filter:
  "separateHavingTag images =
     (filter (\<lambda>img. ImageTags img = []) images, filter (\<lambda>img. ImageTags img \<noteq> []) images)"
  by (simp add: separateHavingTag_def separateHavingTag_loop_filter)

lemma mset_filter_split: "mset (filter P xs) + mset (filter (\<lambda>x. \<not> P x) xs) = mset xs"
  by (induction xs) simp_all

text \<open>
  \<^bold>\<open>C9\<close>. The two results of \<^verbatim>\<open>separateHavingTag\<close> are the images with an empty tag
  list and the images with a non-empty one, each in input order: the place of an image is
  decided by whether its tag list is empty and by nothing else. The two results share no
  image, and together they hold every input image exactly as often as the input does.
\<close>

theorem separateHavingTag_partition:
  "fst (separateHavingTag images) = filter (\<lambda>img. ImageTags img = []) images \<and>
   snd (separateHavingTag images) = filter (\<lambda>img. ImageTags img \<noteq> []) images \<and>
   set (fst (separateHavingTag images)) \<inter> set (snd (separateHavingTag images)) = {} \<and>
   mset (fst (separateHavingTag images)) + mset (snd (separateHavingTag images)) = mset images \<and>
   subseq (fst (separateHavingTag images)) images \<and>
   subseq (snd (separateHavingTag images)) images"
proof -
  have "set (filter (\<lambda>img. ImageTags img = []) images) \<inter>
        set (filter (\<lambda>img. ImageTags img \<noteq> []) images) = {}"
    by auto
  then show ?thesis
    by (simp add: separateHavingTag_filter mset_filter_split)
qed

subsection \<open>The tag filter\<close>

lemma filterTags_empty_pattern: "filterTags rx images [] = Inr (images, [])"
  by (simp add: filterTags_def)

lemma filterTags_tags_compiled:
  "Compile rx tagRE = Inr re \<Longrightarrow>
   filterTags_tags rx tagRE tags = Inr (\<exists>tag\<in>set tags. Match rx re tag)"
  by (induction tags) (simp_all add: MatchString_def)

lemma filterTags_tags_not_compiled:
  "Compile rx tagRE = Inl e \<Longrightarrow> filterTags_tags rx tagRE tags = Inr b \<Longrightarrow> tags = [] \<and> \<not> b"
  by (cases tags) (simp_all add: MatchString_def)

lemma filterTags_loop_compiled:
  assumes "Compile rx tagRE = Inr re"
  shows "distinct (map ImageDigest images) \<Longrightarrow>
     \<forall>a\<in>set w. \<forall>x\<in>set images. ImageDigest a \<noteq> ImageDigest x \<Longrightarrow>
     filterTags_loop rx tagRE images w wo =
       Inr (w @ filter (\<lambda>img. \<exists>tag\<in>set (ImageTags img). Match rx re tag) images,
            wo @ filter (\<lambda>img. \<not> (\<exists>tag\<in>set (ImageTags img). Match rx re tag)) images)"
proof (induction images arbitrary: w wo)
  case Nil
  then show ?case by simp
next
  case (Cons img rest)
  have d: "distinct (map ImageDigest rest)" using Cons.prems(1) by simp
  show ?case
  proof (cases "\<exists>tag\<in>set (ImageTags img). Match rx re tag")
    case True
    have sep: "\<forall>a\<in>set (w @ [img]). \<forall>x\<in>set rest. ImageDigest a \<noteq> ImageDigest x"
      using Cons.prems by auto
    show ?thesis
      using True Cons.IH [OF d sep, of wo]
      by (simp add: filterTags_tags_compiled [OF assms])
  next
    case False
    have sep: "\<forall>a\<in>set w. \<forall>x\<in>set rest. ImageDigest a \<noteq> ImageDigest x"
      using Cons.prems by auto
    have other: "w = [] \<or> ImageDigest (last w) \<noteq> ImageDigest img"
      using Cons.prems(2) by (cases "w = []") auto
    show ?thesis
      using False other Cons.IH [OF d sep, of "wo @ [img]"]
      by (auto simp add: filterTags_tags_compiled [OF assms])
  qed
qed

lemma filterTags_loop_not_compiled:
  assumes "Compile rx tagRE = Inl e"
  shows "filterTags_loop rx tagRE images [] wo = Inr (m, u) \<Longrightarrow>
     m = [] \<and> u = wo @ images \<and> (\<forall>img\<in>set images. ImageTags img = [])"
proof (induction images arbitrary: wo)
  case Nil
  then show ?case by simp
next
  case (Cons img rest)
  from Cons.prems obtain b where b: "filterTags_tags rx tagRE (ImageTags img) = Inr b"
    by (auto split: sum.splits)
  from filterTags_tags_not_compiled [OF assms b] have t: "ImageTags img = []" "\<not> b" by simp_all
  from Cons.prems b t have "filterTags_loop rx tagRE rest [] (wo @ [img]) = Inr (m, u)"
    by simp
  from Cons.IH [OF this] t show ?case by simp
qed

text \<open>
  \<^bold>\<open>C2\<close>. For images with pairwise distinct digests: with the empty pattern
  \<^verbatim>\<open>filterTags\<close> returns the input as matched and nothing as unmatched. With
  any pattern that compiles it returns. Whenever it returns for a non-empty pattern, every
  matched image has a tag that matches, no tag of an unmatched image matches, both results
  keep the input order, and every input image is in exactly one of them.
\<close>

theorem filterTags_partition:
  assumes "distinct (map ImageDigest images)"
  shows "(tagRE = [] \<longrightarrow> filterTags rx images tagRE = Inr (images, [])) \<and>
    (\<forall>re. Compile rx tagRE = Inr re \<longrightarrow>
       (\<exists>matched unmatched. filterTags rx images tagRE = Inr (matched, unmatched))) \<and>
    (\<forall>matched unmatched.
       tagRE \<noteq> [] \<and> filterTags rx images tagRE = Inr (matched, unmatched) \<longrightarrow>
       (\<forall>img\<in>set matched. \<exists>tag\<in>set (ImageTags img). MatchString rx tagRE tag = Inr True) \<and>
       (\<forall>img\<in>set unmatched. \<forall>tag\<in>set (ImageTags img). MatchString rx tagRE tag \<noteq> Inr True) \<and>
       subseq matched images \<and> subseq unmatched images \<and>
       mset matched + mset unmatched = mset images \<and>
       set matched \<inter> set unmatched = {})"
proof (intro conjI allI impI)
  assume "tagRE = []"
  then show "filterTags rx images tagRE = Inr (images, [])"
    by (simp add: filterTags_def)
next
  fix re assume c: "Compile rx tagRE = Inr re"
  show "\<exists>matched unmatched. filterTags rx images tagRE = Inr (matched, unmatched)"
    using filterTags_loop_compiled [OF c assms, of "[]" "[]"]
    by (simp add: filterTags_def)
next
  fix matched unmatched
  assume a: "tagRE \<noteq> [] \<and> filterTags rx images tagRE = Inr (matched, unmatched)"
  then have run: "filterTags_loop rx tagRE images [] [] = Inr (matched, unmatched)"
    by (auto simp add: filterTags_def)
  have "(\<forall>img\<in>set matched. \<exists>tag\<in>set (ImageTags img). MatchString rx tagRE tag = Inr True) \<and>
       (\<forall>img\<in>set unmatched. \<forall>tag\<in>set (ImageTags img). MatchString rx tagRE tag \<noteq> Inr True) \<and>
       subseq matched images \<and> subseq unmatched images \<and>
       mset matched + mset unmatched = mset images \<and>
       set matched \<inter> set unmatched = {}"
  proof (cases "Compile rx tagRE")
    case (Inl e)
    from filterTags_loop_not_compiled [OF Inl run]
    show ?thesis by simp
  next
    case (Inr re)
    let ?P = "\<lambda>img. \<exists>tag\<in>set (ImageTags img). Match rx re tag"
    from filterTags_loop_compiled [OF Inr assms, of "[]" "[]"] run
    have m: "matched = filter ?P images" and u: "unmatched = filter (\<lambda>img. \<not> ?P img) images"
      by simp_all
    have ms: "MatchString rx tagRE tag = Inr (Match rx re tag)" for tag
      by (simp add: MatchString_def Inr)
    have "set (filter ?P images) \<inter> set (filter (\<lambda>img. \<not> ?P img) images) = {}"
      by auto
    then show ?thesis
      unfolding m u by (simp add: ms mset_filter_split)
  qed
  then show "\<forall>img\<in>set matched. \<exists>tag\<in>set (ImageTags img). MatchString rx tagRE tag = Inr True"
    and "\<forall>img\<in>set unmatched. \<forall>tag\<in>set (ImageTags img). MatchString rx tagRE tag \<noteq> Inr True"
    and "subseq matched images" and "subseq unmatched images"
    and "mset matched + mset unmatched = mset images"
    and "set matched \<inter> set unmatched = {}"
    by blast+
qed

theorem filterTags_partition_witness:
  "distinct (map ImageDigest
     [exampleImage 1 [''v1'', ''latest''] 10, exampleImage 2 [''dev''] 20, exampleImage 3 [''v1.2''] 30]) \<and>
   filterTags literalRegexp
     [exampleImage 1 [''v1'', ''latest''] 10, exampleImage 2 [''dev''] 20, exampleImage 3 [''v1.2''] 30] ''v1''
     = Inr ([exampleImage 1 [''v1'', ''latest''] 10, exampleImage 3 [''v1.2''] 30],
            [exampleImage 2 [''dev''] 20]) \<and>
   subseq [exampleImage 1 [''v1'', ''latest''] 10, exampleImage 3 [''v1.2''] 30]
     [exampleImage 1 [''v1'', ''latest''] 10, exampleImage 2 [''dev''] 20, exampleImage 3 [''v1.2''] 30] \<and>
   MatchString literalRegexp ''v1'' ''dev'' \<noteq> Inr True"
proof -
  let ?images = "[exampleImage 1 [''v1'', ''latest''] 10, exampleImage 2 [''dev''] 20,
                  exampleImage 3 [''v1.2''] 30]"
  have d: "distinct (map ImageDigest ?images)"
    by (simp add: exampleImage_def)
  have run: "filterTags literalRegexp ?images ''v1''
     = Inr ([exampleImage 1 [''v1'', ''latest''] 10, exampleImage 3 [''v1.2''] 30],
            [exampleImage 2 [''dev''] 20])"
    by (simp add: filterTags_def MatchString_def literalRegexp_def exampleImage_def)
  have ms: "MatchString literalRegexp ''v1'' ''dev'' \<noteq> Inr True"
    by (simp add: MatchString_def literalRegexp_def)
  have sub: "subseq [exampleImage 1 [''v1'', ''latest''] 10, exampleImage 3 [''v1.2''] 30] ?images"
    by (simp add: exampleImage_def)
  from filterTags_partition [OF d, of "''v1''" literalRegexp] run d ms sub
  show ?thesis by simp
qed

text \<open>
  The hypothesis on the digests is needed: of two images with one digest, the first
  matching and the second not, the second is in neither result.
\<close>

lemma filterTags_shared_digest:
  "filterTags literalRegexp [exampleImage 8 [''v1''] 10, exampleImage 8 [''dev''] 20] ''v1'' =
     Inr ([exampleImage 8 [''v1''] 10], [])"
  by (simp add: filterTags_def MatchString_def literalRegexp_def exampleImage_def)

subsection \<open>The retention sort\<close>

lemma byTime_Swap_mset:
  "i < byTime_Len p \<Longrightarrow> j < byTime_Len p \<Longrightarrow> mset (byTime_Swap p i j) = mset p"
  by (simp add: byTime_Swap_def byTime_Len_def mset_swap)


lemma sort_Sort_contract_mset: "sort_Sort_contract srt \<Longrightarrow> mset (srt p) = mset p"
  by (simp add: sort_Sort_contract_def)

lemma sort_Sort_contract_length: "sort_Sort_contract srt \<Longrightarrow> length (srt p) = length p"
  by (metis sort_Sort_contract_mset size_mset)

lemma sorted_map_contract:
  assumes "\<And>p. mset (srt p) = mset p" "\<And>p. sorted (map ImagePushedAt (srt p))"
  shows "sort_Sort_contract srt"
proof -
  have "\<not> byTime_Less (srt p) j i" if "i < j" "j < byTime_Len (srt p)" for p i j
  proof -
    have "map ImagePushedAt (srt p) ! i \<le> map ImagePushedAt (srt p) ! j"
      using assms(2) [of p] that
      by (intro sorted_nth_mono) (simp_all add: byTime_Len_def)
    then show ?thesis using that by (simp add: byTime_Less_def byTime_Len_def)
  qed
  then show ?thesis using assms(1) by (simp add: sort_Sort_contract_def)
qed

lemma sort_key_contract: "sort_Sort_contract (sort_key ImagePushedAt)"
  by (rule sorted_map_contract) simp_all

lemma sorted_rev_of_negated: "sorted (map uminus zs) \<Longrightarrow> sorted (rev (zs :: int list))"
  by (induction zs) (auto simp add: sorted_append)

lemma sortTiesReversed_contract: "sort_Sort_contract sortTiesReversed"
proof (rule sorted_map_contract)
  fix p :: "'a ImageDetail list"
  show "mset (sortTiesReversed p) = mset p" by (simp add: sortTiesReversed_def)
  have "sorted (map (\<lambda>img. - ImagePushedAt img) (sort_key (\<lambda>img. - ImagePushedAt img) p))"
    by simp
  then have "sorted (map uminus (map ImagePushedAt (sort_key (\<lambda>img. - ImagePushedAt img) p)))"
    by (simp add: comp_def)
  then have "sorted (rev (map ImagePushedAt (sort_key (\<lambda>img. - ImagePushedAt img) p)))"
    by (rule sorted_rev_of_negated)
  then show "sorted (map ImagePushedAt (sortTiesReversed p))"
    by (simp add: sortTiesReversed_def rev_map)
qed




subsection \<open>The retention selector\<close>

lemma int_lt_2p63: "n < 2 ^ 63 \<Longrightarrow> int n < 2 ^ 63"
  by (metis of_nat_less_numeral_power_cancel_iff)

lemma sint_len: 
  assumes "length xs < 2 ^ 63" shows "sint (len xs) = int (length xs)"
proof -
  have r: "int (length xs) < 2 ^ 63" using assms by (rule int_lt_2p63)
  have "- (2 ^ 63) \<le> int (length xs)"
    by (rule order_trans [of _ 0]) simp_all
  then have s: "signed_take_bit 63 (int (length xs)) = int (length xs)"
    using r by (rule signed_take_bit_int_eq_self)
  have "len xs = (word_of_int (int (length xs)) :: go_int)"
    by (simp add: len_def)
  then have "sint (len xs) = signed_take_bit (LENGTH(64) - 1) (int (length xs))"
    by (simp only: sint_sbintrunc')
  then show ?thesis using s by simp
qed

lemma sint_sliceUpper:
  "length xs < 2 ^ 63 \<Longrightarrow>
   sint (sliceUpper xs k) = signed_take_bit 63 (int (length xs) - sint k)"
  by (simp add: sliceUpper_def sint_word_diff sint_len)


lemma sliceUpper_in_range:
  assumes "length xs < 2 ^ 63" "0 \<le> sint k" "sint k \<le> int (length xs)"
  shows "sint (sliceUpper xs k) = int (length xs) - sint k"
proof -
  define B :: int where "B = 2 ^ 63"
  have B0: "0 < B" by (simp add: B_def)
  have "int (length xs) < B" unfolding B_def using assms(1) by (rule int_lt_2p63)
  then have "- B \<le> int (length xs) - sint k" "int (length xs) - sint k < B"
    using assms B0 by linarith+
  then have "signed_take_bit 63 (int (length xs) - sint k) = int (length xs) - sint k"
    unfolding B_def by (rule signed_take_bit_int_eq_self)
  then show ?thesis
    by (simp only: sint_sliceUpper [OF assms(1)])
qed



lemma sorted_take_drop:
  assumes "sorted (map f xs)"
  shows "\<forall>a\<in>set (take k xs). \<forall>b\<in>set (drop k xs). f a \<le> f b"
proof -
  have "sorted (map f (take k xs) @ map f (drop k xs))"
    using assms by (simp flip: map_append)
  then show ?thesis by (auto simp add: sorted_append)
qed

lemma imagesToRemove_in_range:
  assumes "length xs < 2 ^ 63" "0 \<le> sint k" "sint k \<le> int (length xs)"
  shows "imagesToRemove xs k = Inr (take (length xs - nat (sint k)) xs)"
proof -
  have hi: "sint (sliceUpper xs k) = int (length xs) - sint k"
    using assms by (rule sliceUpper_in_range)
  have n: "nat (int (length xs) - sint k) = length xs - nat (sint k)"
    using assms(2) by linarith
  show ?thesis
    using assms(2,3)
    by (simp add: imagesToRemove_def Let_def word_sless_alt word_sle_eq hi n sint_len [OF assms(1)])
qed

lemma imagesToRemove_short:
  assumes "length xs < 2 ^ 63" "int (length xs) < sint k"
  shows "imagesToRemove xs k = Inr []"
  using assms(2) by (simp add: imagesToRemove_def word_sless_alt sint_len [OF assms(1)])

lemma imagesToRemove_Nil:
  assumes "0 \<le>s k" shows "imagesToRemove [] k = Inr []"
proof (cases "0 < sint k")
  case True
  then show ?thesis using imagesToRemove_short [of "[]" k] by simp
next
  case False
  then have "0 \<le> sint k" "sint k \<le> int (length [])"
    using assms by (simp_all add: word_sle_eq)
  from imagesToRemove_in_range [OF _ this] show ?thesis by simp
qed


text \<open>
  \<^bold>\<open>C5\<close>. For candidates sorted by push time and a keep-count \<open>N \<ge> 0\<close>: with at
  most \<open>N\<close> candidates nothing is selected; with \<open>N + k\<close> candidates,
  \<open>k > 0\<close>, the selection is the first \<open>k\<close> candidates, it has \<open>k\<close>
  elements, none of them was pushed after a retained one, and the \<open>N\<close> candidates
  behind them are retained.
\<close>

theorem imagesToRemove_selects_oldest:
  assumes "sorted (map ImagePushedAt cands)"
    and "0 \<le>s amountToKeep"
    and "length cands < 2 ^ 63"
  shows "(int (length cands) \<le> sint amountToKeep \<longrightarrow>
            imagesToRemove cands amountToKeep = Inr []) \<and>
         (\<forall>k. 0 < k \<and> int (length cands) = sint amountToKeep + int k \<longrightarrow>
            imagesToRemove cands amountToKeep = Inr (take k cands) \<and>
            length (take k cands) = k \<and>
            (\<forall>a\<in>set (take k cands). \<forall>b\<in>set (drop k cands).
               ImagePushedAt a \<le> ImagePushedAt b) \<and>
            take k cands @ drop k cands = cands \<and>
            length (drop k cands) = nat (sint amountToKeep))"
proof (intro conjI allI impI)
  have k0: "0 \<le> sint amountToKeep" using assms(2) by (simp add: word_sle_eq)
  {
    assume le: "int (length cands) \<le> sint amountToKeep"
    show "imagesToRemove cands amountToKeep = Inr []"
    proof (cases "int (length cands) < sint amountToKeep")
      case True
      then show ?thesis using assms(3) by (simp add: imagesToRemove_short)
    next
      case False
      with le have "sint amountToKeep \<le> int (length cands)" by simp
      from imagesToRemove_in_range [OF assms(3) k0 this] le show ?thesis by simp
    qed
  next
    fix k :: nat
    assume a: "0 < k \<and> int (length cands) = sint amountToKeep + int k"
    then have le: "sint amountToKeep \<le> int (length cands)" by simp
    have n: "length cands - nat (sint amountToKeep) = k" using a k0 by linarith
    show "imagesToRemove cands amountToKeep = Inr (take k cands)"
      using imagesToRemove_in_range [OF assms(3) k0 le] by (simp add: n)
    show "length (take k cands) = k" using n by simp
    show "\<forall>a\<in>set (take k cands). \<forall>b\<in>set (drop k cands).
            ImagePushedAt a \<le> ImagePushedAt b"
      using assms(1) by (rule sorted_take_drop)
    show "take k cands @ drop k cands = cands" by simp
    have "length cands - k = nat (sint amountToKeep)" using a k0 by linarith
    then show "length (drop k cands) = nat (sint amountToKeep)" by simp
  }
qed

theorem imagesToRemove_selects_oldest_witness:
  "sorted (map ImagePushedAt [exampleImage 1 [''a''] 10, exampleImage 2 [''b''] 20, exampleImage 3 [''c''] 30]) \<and>
   (0 :: go_int) \<le>s 2 \<and>
   imagesToRemove [exampleImage 1 [''a''] 10, exampleImage 2 [''b''] 20, exampleImage 3 [''c''] 30] 2
     = Inr [exampleImage 1 [''a''] 10] \<and>
   imagesToRemove [exampleImage 1 [''a''] 10, exampleImage 2 [''b''] 20] 2 = Inr []"
proof -
  let ?c = "[exampleImage 1 [''a''] 10, exampleImage 2 [''b''] 20, exampleImage 3 [''c''] 30]"
  let ?c2 = "[exampleImage 1 [''a''] 10, exampleImage 2 [''b''] 20]"
  have s: "sorted (map ImagePushedAt ?c)" and s2: "sorted (map ImagePushedAt ?c2)"
    by (simp_all add: exampleImage_def)
  have k: "(0 :: go_int) \<le>s 2" by (simp add: word_sle_eq)
  have l: "length ?c < 2 ^ 63" and l2: "length ?c2 < 2 ^ 63" by simp_all
  have "imagesToRemove ?c 2 = Inr (take 1 ?c)"
    using imagesToRemove_selects_oldest [OF s k l] by simp
  moreover have "imagesToRemove ?c2 2 = Inr []"
    using imagesToRemove_selects_oldest [OF s2 k l2] by simp
  ultimately show ?thesis using s k by simp
qed

subsection \<open>The deletion plan\<close>

lemma candidates_subset:
  assumes "candidates rx tagged tagFilter = Inr cands"
  shows "length cands \<le> length tagged"
proof (cases "regExp tagFilter = []")
  case True
  then show ?thesis using assms
    by (auto simp add: candidates_def filterTags_def split: if_splits)
next
  case False
  from assms obtain m u where
    f: "filterTags_loop rx (regExp tagFilter) tagged [] [] = Inr (m, u)"
    and c: "cands = m \<or> cands = u"
    using False by (auto simp add: candidates_def filterTags_def split: sum.splits if_splits)
  have "length m' \<le> length w + length xs \<and> length u' \<le> length wo + length xs"
    if "filterTags_loop rx tagRE xs w wo = Inr (m', u')" for tagRE xs w wo m' u'
    using that
  proof (induction xs arbitrary: w wo)
    case Nil
    then show ?case by simp
  next
    case (Cons img rest)
    from Cons.prems obtain b where
      "filterTags_loop rx tagRE rest (if b then w @ [img] else w)
         (if length (if b then w @ [img] else w) = 0 \<or>
             ImageDigest (last (if b then w @ [img] else w)) \<noteq> ImageDigest img
          then wo @ [img] else wo) = Inr (m', u')"
      by (auto simp add: Let_def split: sum.splits)
    from Cons.IH [OF this] show ?case by (auto split: if_splits)
  qed
  from this [OF f] c show ?thesis by auto
qed

lemma candidates_compiled:
  "Compile rx (regExp tagFilter) = Inr re \<Longrightarrow> \<exists>cands. candidates rx tagged tagFilter = Inr cands"
proof -
  assume c: "Compile rx (regExp tagFilter) = Inr re"
  have "\<exists>m u. filterTags rx tagged (regExp tagFilter) = Inr (m, u)"
  proof (cases "regExp tagFilter = []")
    case True
    then show ?thesis by (simp add: filterTags_def)
  next
    case False
    have "\<exists>m u. filterTags_loop rx tagRE xs w wo = Inr (m, u)"
      if "Compile rx tagRE = Inr re" for tagRE xs w wo
      using that
      by (induction xs arbitrary: w wo) (simp_all add: filterTags_tags_compiled Let_def)
    from this [OF c] False show ?thesis by (simp add: filterTags_def)
  qed
  then show ?thesis by (auto simp add: candidates_def)
qed

text \<open>
  \<^bold>\<open>C8\<close>. Whenever \<^verbatim>\<open>cleanupImages\<close> has a deletion plan, the plan is the
  untagged images, in input order, followed by the images selected among the tagged
  candidates; so every image with no tag is in the plan, whatever the keep-count, the
  pattern and the post-filter action are. There is a plan whenever the pattern compiles
  and the keep-count is not negative.
\<close>

theorem deletionPlan_untagged_first:
  "(\<forall>re. Compile rx (regExp tagFilter) = Inr re \<and> sort_Sort_contract srt \<and>
         0 \<le>s amountToKeep \<and> length images < 2 ^ 63 \<longrightarrow>
         (\<exists>plan. deletionPlan rx srt images amountToKeep tagFilter = Inr plan)) \<and>
   (\<forall>plan. deletionPlan rx srt images amountToKeep tagFilter = Inr plan \<longrightarrow>
      (\<exists>cands selected.
         candidates rx (snd (separateHavingTag images)) tagFilter = Inr cands \<and>
         imagesToRemove (srt cands) amountToKeep = Inr selected \<and>
         plan = fst (separateHavingTag images) @ selected) \<and>
      prefix (filter (\<lambda>img. ImageTags img = []) images) plan \<and>
      (\<forall>img\<in>set images. ImageTags img = [] \<longrightarrow> img \<in> set plan))"
proof (intro conjI allI impI)
  fix re
  assume a: "Compile rx (regExp tagFilter) = Inr re \<and> sort_Sort_contract srt \<and>
         0 \<le>s amountToKeep \<and> length images < 2 ^ 63"
  let ?tagged = "filter (\<lambda>img. ImageTags img \<noteq> []) images"
  from a have "Compile rx (regExp tagFilter) = Inr re" by simp
  from candidates_compiled [OF this, of ?tagged] obtain cands where
    c: "candidates rx ?tagged tagFilter = Inr cands" by blast
  have "length (srt cands) = length cands" using a by (simp add: sort_Sort_contract_length)
  also have "\<dots> \<le> length ?tagged" using c by (rule candidates_subset)
  also have "\<dots> \<le> length images" by simp
  finally have l: "length (srt cands) < 2 ^ 63" using a by simp
  have k0: "0 \<le> sint amountToKeep" using a by (simp add: word_sle_eq)
  have "\<exists>selected. imagesToRemove (srt cands) amountToKeep = Inr selected"
  proof (cases "int (length (srt cands)) < sint amountToKeep")
    case True
    then show ?thesis using l by (simp add: imagesToRemove_short)
  next
    case False
    then have "sint amountToKeep \<le> int (length (srt cands))" by simp
    from imagesToRemove_in_range [OF l k0 this] show ?thesis by simp
  qed
  then show "\<exists>plan. deletionPlan rx srt images amountToKeep tagFilter = Inr plan"
    by (auto simp add: deletionPlan_def separateHavingTag_filter c)
next
  fix plan
  assume p: "deletionPlan rx srt images amountToKeep tagFilter = Inr plan"
  then obtain cands selected where
    c: "candidates rx (snd (separateHavingTag images)) tagFilter = Inr cands"
    and s: "imagesToRemove (srt cands) amountToKeep = Inr selected"
    and pl: "plan = fst (separateHavingTag images) @ selected"
    by (auto simp add: deletionPlan_def split: prod.splits sum.splits)
  show "\<exists>cands selected.
         candidates rx (snd (separateHavingTag images)) tagFilter = Inr cands \<and>
         imagesToRemove (srt cands) amountToKeep = Inr selected \<and>
         plan = fst (separateHavingTag images) @ selected"
    using c s pl by blast
  show "prefix (filter (\<lambda>img. ImageTags img = []) images) plan"
    using pl by (simp add: separateHavingTag_filter)
  show "\<forall>img\<in>set images. ImageTags img = [] \<longrightarrow> img \<in> set plan"
    using pl by (simp add: separateHavingTag_filter)
qed

theorem deletionPlan_untagged_first_witness:
  "Compile literalRegexp ''v1'' = Inr ''v1'' \<and> (0 :: go_int) \<le>s 1 \<and>
   deletionPlan literalRegexp (sort_key ImagePushedAt)
     [exampleImage 2 [] 10, exampleImage 3 [''v1''] 20, exampleImage 4 [''dev''] 5,
      exampleImage 5 [] 30, exampleImage 6 [''test''] 7]
     1 \<lparr>regExp = ''v1'', action = ''save''\<rparr> =
     Inr [exampleImage 2 [] 10, exampleImage 5 [] 30, exampleImage 4 [''dev''] 5] \<and>
   prefix [exampleImage 2 [] 10, exampleImage 5 [] 30]
     [exampleImage 2 [] 10, exampleImage 5 [] 30, exampleImage 4 [''dev''] 5] \<and>
   (\<exists>plan. deletionPlan literalRegexp sortTiesReversed
     [exampleImage 2 [] 10, exampleImage 3 [''v1''] 20, exampleImage 4 [''dev''] 5,
      exampleImage 5 [] 30, exampleImage 6 [''test''] 7]
     1 \<lparr>regExp = ''v1'', action = ''save''\<rparr> = Inr plan)"
proof -
  let ?images = "[exampleImage 2 [] 10, exampleImage 3 [''v1''] 20, exampleImage 4 [''dev''] 5,
      exampleImage 5 [] 30, exampleImage 6 [''test''] 7]"
  let ?tf = "\<lparr>regExp = ''v1'', action = ''save''\<rparr>"
  have c: "Compile literalRegexp ''v1'' = Inr ''v1''" by (simp add: literalRegexp_def)
  have k: "(0 :: go_int) \<le>s 1" by (simp add: word_sle_eq)
  have s: "sort_Sort_contract (sortTiesReversed :: nat ImageDetail list \<Rightarrow> _)"
    by (rule sortTiesReversed_contract)
  have l: "length ?images < 2 ^ 63" by simp
  from deletionPlan_untagged_first [of literalRegexp ?tf sortTiesReversed 1 ?images] c s k l
  have total: "\<exists>plan. deletionPlan literalRegexp sortTiesReversed ?images 1 ?tf = Inr plan"
    by simp
  have sel: "imagesToRemove [exampleImage 4 [''dev''] 5, exampleImage 6 [''test''] 7] (1 :: go_int)
       = Inr [exampleImage 4 [''dev''] 5]"
    using imagesToRemove_in_range
      [of "[exampleImage 4 [''dev''] 5, exampleImage 6 [''test''] 7]" 1] by simp
  have run: "deletionPlan literalRegexp (sort_key ImagePushedAt) ?images 1 ?tf =
     Inr [exampleImage 2 [] 10, exampleImage 5 [] 30, exampleImage 4 [''dev''] 5]"
    using sel
    by (simp add: deletionPlan_def separateHavingTag_filter candidates_def filterTags_def
        MatchString_def literalRegexp_def exampleImage_def)
  from deletionPlan_untagged_first [of literalRegexp ?tf "sort_key ImagePushedAt" 1 ?images] run
  have "prefix (filter (\<lambda>img. ImageTags img = []) ?images)
          [exampleImage 2 [] 10, exampleImage 5 [] 30, exampleImage 4 [''dev''] 5]"
    by blast
  then have "prefix [exampleImage 2 [] 10, exampleImage 5 [] 30]
     [exampleImage 2 [] 10, exampleImage 5 [] 30, exampleImage 4 [''dev''] 5]"
    by (simp add: exampleImage_def)
  then show ?thesis using c k run total by blast
qed

text \<open>
  Which of two candidates pushed at the same second is selected depends on the order
  in which the sort leaves them.
\<close>

lemma deletionPlan_tie_order:
  "deletionPlan literalRegexp (sort_key ImagePushedAt)
     [exampleImage 2 [''a''] 10, exampleImage 3 [''b''] 10] 1 \<lparr>regExp = [], action = ''delete''\<rparr> =
     Inr [exampleImage 2 [''a''] 10] \<and>
   deletionPlan literalRegexp sortTiesReversed
     [exampleImage 2 [''a''] 10, exampleImage 3 [''b''] 10] 1 \<lparr>regExp = [], action = ''delete''\<rparr> =
     Inr [exampleImage 3 [''b''] 10]"
proof -
  have k: "0 \<le> sint (1 :: go_int)" "sint (1 :: go_int) \<le> int (length [x, y])" for x y :: "nat ImageDetail"
    by simp_all
  have s: "imagesToRemove [x, y] (1 :: go_int) = Inr [x]" for x y :: "nat ImageDetail"
    using imagesToRemove_in_range [OF _ k, of x y] by simp
  show ?thesis
    by (simp add: deletionPlan_def separateHavingTag_filter candidates_def
        filterTags_empty_pattern sortTiesReversed_def exampleImage_def s)
qed

subsection \<open>The batch deleter\<close>

lemma buildImageIdentifier_loop_map:
  "buildImageIdentifier_loop images acc = acc @ map ImageDigest images"
  by (induction images arbitrary: acc) simp_all

lemma buildImageIdentifier_map: "buildImageIdentifier images = map ImageDigest images"
  by (simp add: buildImageIdentifier_def buildImageIdentifier_loop_map)

lemma deleteImages_call:
  "deleteImages ecr w repoName images =
     (case batchDeleteImage ecr (registry w) repoName (map ImageDigest images) of
        (err, r') \<Rightarrow>
          (map_option (deletingError repoName) err,
           \<lparr>registry = r', calls = calls w @ [BatchDeleteImage repoName (map ImageDigest images)]\<rparr>))"
  by (auto simp add: deleteImages_def callBatchDeleteImage_def buildImageIdentifier_map Let_def
      split: prod.splits option.splits)

lemma cleanupImages_loop_deleteInOrder:
  "i \<le> length ids div 100 \<Longrightarrow>
   cleanupImages_loop ecr w repoName ids i = (err, i', w') \<Longrightarrow>
   deleteInOrder ecr w repoName
     (map (\<lambda>k. sliceRange ids (k * 100) ((k + 1) * 100)) [i..<length ids div 100]) = (err, w') \<and>
   (err = None \<longrightarrow> i' = length ids div 100)"
proof (induction ecr w repoName ids i rule: cleanupImages_loop.induct)
  case (1 ecr w repoName ids i)
  show ?case
  proof (cases "i < length ids div 100")
    case False
    with "1.prems" show ?thesis by simp
  next
    case True
    then have u: "[i..<length ids div 100] = i # [i + 1..<length ids div 100]"
      by (simp add: upt_conv_Cons)
    obtain e w1 where d: "deleteImages ecr w repoName (sliceRange ids (i * 100) ((i + 1) * 100)) = (e, w1)"
      by (cases "deleteImages ecr w repoName (sliceRange ids (i * 100) ((i + 1) * 100))")
    show ?thesis
    proof (cases e)
      case (Some m)
      with "1.prems" True d u show ?thesis by auto
    next
      case None
      with "1.prems" True d have
        r: "cleanupImages_loop ecr w1 repoName ids (i + 1) = (err, i', w')" by simp
      have "i + 1 \<le> length ids div 100" using True by simp
      from "1.IH" [OF True _ _ this r] d None
      have "deleteInOrder ecr w1 repoName
              (map (\<lambda>k. sliceRange ids (k * 100) ((k + 1) * 100)) [i + 1..<length ids div 100]) = (err, w') \<and>
            (err = None \<longrightarrow> i' = length ids div 100)"
        by simp
      then show ?thesis using d None by (simp only: u) simp
    qed
  qed
qed

lemma deleteInOrder_append:
  "deleteInOrder ecr w repoName (xs @ ys) =
     (case deleteInOrder ecr w repoName xs of
        (Some err, w') \<Rightarrow> (Some err, w')
      | (None, w') \<Rightarrow> deleteInOrder ecr w' repoName ys)"
  by (induction xs arbitrary: w) (auto split: prod.splits option.splits)

lemma executePlan_deleteInOrder:
  assumes "ids \<noteq> []"
  shows "executePlan ecr w repoName ids False = deleteInOrder ecr w repoName (batches ids)"
proof -
  obtain err i' w' where l: "cleanupImages_loop ecr w repoName ids 0 = (err, i', w')"
    by (cases "cleanupImages_loop ecr w repoName ids 0") auto
  from cleanupImages_loop_deleteInOrder [OF _ l]
  have d: "deleteInOrder ecr w repoName
     (map (\<lambda>k. sliceRange ids (k * 100) ((k + 1) * 100)) [0..<length ids div 100]) = (err, w')"
    and i: "err = None \<longrightarrow> i' = length ids div 100"
    by simp_all
  show ?thesis
    using assms l d i
    by (cases err) (auto simp add: executePlan_def batches_def deleteInOrder_append
        split: prod.splits option.splits)
qed

lemma deleteInOrder_replay:
  "deleteInOrder ecr w repoName cs = (res, w') \<Longrightarrow>
   (res = None \<and>
    replay ecr repoName (registry w) (map (map ImageDigest) cs) =
      (replicate (length cs) None, registry w') \<and>
    calls w' = calls w @ map (BatchDeleteImage repoName) (map (map ImageDigest) cs)) \<or>
   (\<exists>j<length cs. \<exists>err.
      res = Some (deletingError repoName (deletingError repoName err)) \<and>
      replay ecr repoName (registry w) (take (Suc j) (map (map ImageDigest) cs)) =
        (replicate j None @ [Some err], registry w') \<and>
      calls w' = calls w @
        map (BatchDeleteImage repoName) (take (Suc j) (map (map ImageDigest) cs)))"
proof (induction cs arbitrary: w)
  case Nil
  then show ?case by simp
next
  case (Cons c rest)
  obtain e r1 where api: "batchDeleteImage ecr (registry w) repoName (map ImageDigest c) = (e, r1)"
    by (cases "batchDeleteImage ecr (registry w) repoName (map ImageDigest c)")
  let ?w1 = "\<lparr>registry = r1, calls = calls w @ [BatchDeleteImage repoName (map ImageDigest c)]\<rparr>"
  show ?case
  proof (cases e)
    case (Some m)
    with Cons.prems api have "res = Some (deletingError repoName (deletingError repoName m))"
      and "w' = ?w1"
      by (simp_all add: deleteImages_call)
    then have "res = Some (deletingError repoName (deletingError repoName m)) \<and>
      replay ecr repoName (registry w) (take (Suc 0) (map (map ImageDigest) (c # rest))) =
        (replicate 0 None @ [Some m], registry w') \<and>
      calls w' = calls w @
        map (BatchDeleteImage repoName) (take (Suc 0) (map (map ImageDigest) (c # rest)))"
      using api Some by simp
    then show ?thesis by (intro disjI2 exI [of _ 0]) auto
  next
    case None
    with Cons.prems api have run: "deleteInOrder ecr ?w1 repoName rest = (res, w')"
      by (simp add: deleteImages_call)
    from Cons.IH [OF run] show ?thesis
    proof (elim disjE exE conjE)
      assume "res = None"
        and "replay ecr repoName (registry ?w1) (map (map ImageDigest) rest) =
               (replicate (length rest) None, registry w')"
        and "calls w' = calls ?w1 @ map (BatchDeleteImage repoName) (map (map ImageDigest) rest)"
      then show ?thesis using api None by simp
    next
      fix j err
      assume j: "j < length rest"
        and "res = Some (deletingError repoName (deletingError repoName err))"
        and "replay ecr repoName (registry ?w1) (take (Suc j) (map (map ImageDigest) rest)) =
               (replicate j None @ [Some err], registry w')"
        and "calls w' = calls ?w1 @
               map (BatchDeleteImage repoName) (take (Suc j) (map (map ImageDigest) rest))"
      then have "res = Some (deletingError repoName (deletingError repoName err)) \<and>
        replay ecr repoName (registry w) (take (Suc (Suc j)) (map (map ImageDigest) (c # rest))) =
          (replicate (Suc j) None @ [Some err], registry w') \<and>
        calls w' = calls w @
          map (BatchDeleteImage repoName) (take (Suc (Suc j)) (map (map ImageDigest) (c # rest)))"
        using api None by simp
      then show ?thesis using j by (intro disjI2 exI [of _ "Suc j"]) auto
    qed
  qed
qed

lemma batches_length: "length (batches ids) = length ids div 100 + 1"
  by (simp add: batches_def)

lemma batches_last: "last (batches ids) = drop (length ids div 100 * 100) ids"
  by (simp add: batches_def sliceFrom_def)

lemma batches_last_length: "length (last (batches ids)) = length ids mod 100"
proof -
  have "length ids - length ids div 100 * 100 = length ids mod 100"
    by (simp add: minus_div_mult_eq_mod)
  then show ?thesis by (simp add: batches_last)
qed

lemma executePlan_success_calls:
  assumes "ids \<noteq> []" and "executePlan ecr w repoName ids False = (None, w')"
  shows "calls w' = calls w @ map (BatchDeleteImage repoName) (map (map ImageDigest) (batches ids))"
    and "length (calls w') = length (calls w) + length ids div 100 + 1"
proof -
  from assms have "deleteInOrder ecr w repoName (batches ids) = (None, w')"
    by (simp add: executePlan_deleteInOrder)
  from deleteInOrder_replay [OF this]
  show c: "calls w' = calls w @
      map (BatchDeleteImage repoName) (map (map ImageDigest) (batches ids))"
    by simp
  show "length (calls w') = length (calls w) + length ids div 100 + 1"
    by (simp add: c batches_length)
qed

lemma batches_hundred: "length ids = 100 \<Longrightarrow> batches ids = [ids, []]"
  by (simp add: batches_def sliceRange_def sliceFrom_def)

lemma batches_two_hundred:
  "length ids = 200 \<Longrightarrow> batches ids = [take 100 ids, take 100 (drop 100 ids), []]"
  by (simp add: batches_def sliceRange_def sliceFrom_def upt_rec [of 0] upt_rec [of 1]
      upt_rec [of "Suc 0"] upt_rec [of 2])

lemma length_untaggedImages: "length (untaggedImages n) = n"
  by (simp add: untaggedImages_def)

lemma digests_untaggedImages: "map ImageDigest (untaggedImages n) = [0..<n]"
  by (simp add: untaggedImages_def exampleImage_def comp_def map_idI)

lemma digests_untaggedImages_take: "map ImageDigest (take m (untaggedImages n)) = [0..<min m n]"
  by (simp add: digests_untaggedImages take_upt min_def flip: take_map)

lemma digests_untaggedImages_drop:
  "map ImageDigest (take m (drop k (untaggedImages n))) = take m [k..<n]"
  by (simp add: digests_untaggedImages drop_upt flip: take_map drop_map)

lemma separateHavingTag_untaggedImages:
  "separateHavingTag (untaggedImages n) = (untaggedImages n, [])"
  by (simp add: separateHavingTag_filter untaggedImages_def exampleImage_def filter_map comp_def)

lemma deletionPlan_untaggedImages:
  "0 \<le>s k \<Longrightarrow>
   deletionPlan literalRegexp (sort_key ImagePushedAt) (untaggedImages n) k
     \<lparr>regExp = [], action = a\<rparr> = Inr (untaggedImages n)"
  by (simp add: deletionPlan_def separateHavingTag_untaggedImages candidates_def
      filterTags_empty_pattern imagesToRemove_Nil)

text \<open>
  \<^bold>\<open>C6\<close>. With the dry-run flag, or with an empty plan, the deleting part of
  \<^verbatim>\<open>cleanupImages\<close> returns \<^verbatim>\<open>nil\<close> and leaves the world as it was: no
  call is added and the registry keeps its state. So does \<^verbatim>\<open>cleanupImages\<close> as
  a whole, for every input for which it has a plan.
\<close>

theorem dry_run_or_empty_plan_no_call:
  "(\<forall>deleteImageIDs. dryRun \<or> deleteImageIDs = [] \<longrightarrow>
      executePlan ecr w repoName deleteImageIDs dryRun = (None, w)) \<and>
   (dryRun \<longrightarrow>
      snd (cleanupImages ecr rx srt w repoName images dryRun amountToKeep tagFilter) = w) \<and>
   (\<forall>plan. deletionPlan rx srt images amountToKeep tagFilter = Inr plan \<and>
           (dryRun \<or> plan = []) \<longrightarrow>
      cleanupImages ecr rx srt w repoName images dryRun amountToKeep tagFilter = (Inr None, w))"
proof -
  have e: "executePlan ecr w repoName ids dryRun = (None, w)" if "dryRun \<or> ids = []" for ids
    using that by (auto simp add: executePlan_def)
  have "snd (cleanupImages ecr rx srt w repoName images dryRun amountToKeep tagFilter) = w"
    if dryRun
    using that e by (simp add: cleanupImages_def split: sum.splits)
  moreover have
    "cleanupImages ecr rx srt w repoName images dryRun amountToKeep tagFilter = (Inr None, w)"
    if "deletionPlan rx srt images amountToKeep tagFilter = Inr plan \<and> (dryRun \<or> plan = [])"
    for plan
    using that e [of plan] by (simp add: cleanupImages_def)
  ultimately show ?thesis using e by blast
qed

theorem dry_run_or_empty_plan_no_call_witness:
  "deletionPlan literalRegexp (sort_key ImagePushedAt) (untaggedImages 3) 100
     \<lparr>regExp = [], action = ''delete''\<rparr> = Inr (untaggedImages 3) \<and>
   cleanupImages (failingFrom [] 0) literalRegexp (sort_key ImagePushedAt)
     \<lparr>registry = 0, calls = []\<rparr> ''repo'' (untaggedImages 3) True 100
     \<lparr>regExp = [], action = ''delete''\<rparr> = (Inr None, \<lparr>registry = 0, calls = []\<rparr>) \<and>
   executePlan (failingFrom [] 0) \<lparr>registry = 0, calls = []\<rparr> ''repo''
     ([] :: nat ImageDetail list) False = (None, \<lparr>registry = 0, calls = []\<rparr>)"
proof -
  have k: "(0 :: go_int) \<le>s 100" by (simp add: word_sle_eq)
  note p = deletionPlan_untaggedImages [OF k, of 3 "''delete''"]
  note t = dry_run_or_empty_plan_no_call [of True "failingFrom [] 0"
      "\<lparr>registry = 0, calls = []\<rparr>" "''repo''" literalRegexp "sort_key ImagePushedAt"
      "untaggedImages 3" 100 "\<lparr>regExp = [], action = ''delete''\<rparr>"]
  note f = dry_run_or_empty_plan_no_call [of False "failingFrom [] 0"
      "\<lparr>registry = 0, calls = []\<rparr>" "''repo''" literalRegexp "sort_key ImagePushedAt"
      "untaggedImages 3" 100 "\<lparr>regExp = [], action = ''delete''\<rparr>"]
  from t p have a: "cleanupImages (failingFrom [] 0) literalRegexp (sort_key ImagePushedAt)
     \<lparr>registry = 0, calls = []\<rparr> ''repo'' (untaggedImages 3) True 100
     \<lparr>regExp = [], action = ''delete''\<rparr> = (Inr None, \<lparr>registry = 0, calls = []\<rparr>)"
    by blast
  from f have b: "executePlan (failingFrom [] 0) \<lparr>registry = 0, calls = []\<rparr> ''repo''
     ([] :: nat ImageDetail list) False = (None, \<lparr>registry = 0, calls = []\<rparr>)"
    by blast
  show ?thesis using p a b by blast
qed

text \<open>
  \<^bold>\<open>C7\<close>. For a non-empty plan without dry-run, either every delete call succeeds,
  all batches are called in order and \<^verbatim>\<open>nil\<close> is returned; or some call is the
  first to fail, its error is returned, the calls made are the batches up to that one
  and no other, and the registry is in the state that call left.
\<close>

theorem executePlan_stops_at_first_failure:
  assumes "deleteImageIDs \<noteq> []"
    and "executePlan ecr w repoName deleteImageIDs False = (res, w')"
  shows
   "(res = None \<and>
     replay ecr repoName (registry w) (map (map ImageDigest) (batches deleteImageIDs)) =
       (replicate (length (batches deleteImageIDs)) None, registry w') \<and>
     calls w' = calls w @
       map (BatchDeleteImage repoName) (map (map ImageDigest) (batches deleteImageIDs))) \<or>
    (\<exists>j<length (batches deleteImageIDs). \<exists>err.
       res = Some (deletingError repoName (deletingError repoName err)) \<and>
       replay ecr repoName (registry w)
           (take (Suc j) (map (map ImageDigest) (batches deleteImageIDs))) =
         (replicate j None @ [Some err], registry w') \<and>
       calls w' = calls w @
         map (BatchDeleteImage repoName)
           (take (Suc j) (map (map ImageDigest) (batches deleteImageIDs))))"
proof -
  from assms have "deleteInOrder ecr w repoName (batches deleteImageIDs) = (res, w')"
    by (simp add: executePlan_deleteInOrder)
  then show ?thesis by (rule deleteInOrder_replay)
qed

theorem executePlan_stops_at_first_failure_witness:
  "untaggedImages 200 \<noteq> [] \<and>
   executePlan (failingFrom [] 2) \<lparr>registry = 0, calls = []\<rparr> ''repo'' (untaggedImages 200) False =
     (Some (deletingError ''repo'' (deletingError ''repo'' ''throttled'')),
      \<lparr>registry = 2,
       calls = [BatchDeleteImage ''repo'' [0..<100], BatchDeleteImage ''repo'' [100..<200]]\<rparr>) \<and>
   length (batches (untaggedImages 200)) = 3 \<and>
   (\<exists>j<length (batches (untaggedImages 200)). \<exists>err.
      replay (failingFrom [] 2) ''repo'' 0
        (take (Suc j) (map (map ImageDigest) (batches (untaggedImages 200)))) =
      (replicate j None @ [Some err], 2))"
proof -
  have ne: "untaggedImages 200 \<noteq> []"
    using length_untaggedImages [of 200] by auto
  have b: "batches (untaggedImages 200) =
      [take 100 (untaggedImages 200), take 100 (drop 100 (untaggedImages 200)), []]"
    by (rule batches_two_hundred) (rule length_untaggedImages)
  have t: "take 100 [100..<200] = [100..<200]" by simp
  have run: "executePlan (failingFrom [] 2) \<lparr>registry = 0, calls = []\<rparr> ''repo''
       (untaggedImages 200) False =
     (Some (deletingError ''repo'' (deletingError ''repo'' ''throttled'')),
      \<lparr>registry = 2,
       calls = [BatchDeleteImage ''repo'' [0..<100], BatchDeleteImage ''repo'' [100..<200]]\<rparr>)"
    by (simp only: executePlan_deleteInOrder [OF ne] b)
      (simp add: deleteImages_call failingFrom_def digests_untaggedImages_take
        digests_untaggedImages_drop t)
  have len3: "length (batches (untaggedImages 200)) = 3"
    by (simp add: batches_length length_untaggedImages)
  from executePlan_stops_at_first_failure [OF ne run]
  have "\<exists>j<length (batches (untaggedImages 200)). \<exists>err.
      replay (failingFrom [] 2) ''repo'' 0
        (take (Suc j) (map (map ImageDigest) (batches (untaggedImages 200)))) =
      (replicate j None @ [Some err], 2)"
    by auto
  then show ?thesis using ne run len3 by blast
qed

text \<open>
  \<^bold>\<open>C1\<close>. The run of \<^verbatim>\<open>cleanupImages\<close> on a plan of exactly 100 images, every
  call succeeding: the program makes two delete calls, the second with no image, where
  the claim has one call of 100 images.
\<close>

theorem cleanupImages_hundred_images:
  "cleanupImages (singlePage (untaggedImages 100)) literalRegexp (sort_key ImagePushedAt) start
     ''repo'' (untaggedImages 100) False 100 \<lparr>regExp = [], action = ''delete''\<rparr> =
     (Inr None,
      \<lparr>registry = (), calls = [BatchDeleteImage ''repo'' [0..<100], BatchDeleteImage ''repo'' []]\<rparr>)"
proof -
  have k: "(0 :: go_int) \<le>s 100" by (simp add: word_sle_eq)
  have ne: "untaggedImages 100 \<noteq> []"
    using length_untaggedImages [of 100] by auto
  have b: "batches (untaggedImages 100) = [untaggedImages 100, []]"
    by (rule batches_hundred) (rule length_untaggedImages)
  have "executePlan (singlePage (untaggedImages 100)) start ''repo'' (untaggedImages 100) False =
     (None, \<lparr>registry = (), calls = [BatchDeleteImage ''repo'' [0..<100], BatchDeleteImage ''repo'' []]\<rparr>)"
    by (simp only: executePlan_deleteInOrder [OF ne] b)
      (simp add: deleteImages_call singlePage_def start_def digests_untaggedImages)
  then show ?thesis
    by (simp add: cleanupImages_def deletionPlan_untaggedImages [OF k])
qed

subsection \<open>The main function\<close>


lemma getImages_singlePage:
  "getImages (singlePage images) w repoName =
     Some (Inr images, \<lparr>registry = registry w, calls = calls w @ [DescribeImages repoName None]\<rparr>)"
  unfolding getImages_def
  by (subst getImages_loop.simps) (simp add: callDescribeImages_def singlePage_def)

lemma main_rejects:
  assumes "isl (Compile rx (flag_tag_regexp fl)) \<or>
           \<not> Contains ''deletesave'' (ToLower (flag_post_filter_action fl))"
  shows "\<exists>msg. main ecr rx srt fl w = Some (ExitFatal msg, w)"
  using assms by (auto simp add: main_def Let_def split: sum.splits)


text \<open>
  \<^bold>\<open>C3\<close>. A run with \<^verbatim>\<open>--post-filter-action=E\<close>: the value is neither
  \<^verbatim>\<open>delete\<close> nor \<^verbatim>\<open>save\<close>, the program accepts it, calls the registry
  and ends with status 0.
\<close>

theorem main_accepts_other_action:
  "main (singlePage [exampleImage 7 [] 10]) literalRegexp (sort_key ImagePushedAt)
     \<lparr>flag_keep = 100, flag_aws_region = ''eu-central-1'', flag_repo = ''repo'',
      flag_dry_run = False, flag_tag_regexp = [], flag_post_filter_action = ''E''\<rparr> start =
   Some (Exit0,
     \<lparr>registry = (), calls = [DescribeImages ''repo'' None, BatchDeleteImage ''repo'' [7]]\<rparr>)"
proof -
  have k: "(0 :: go_int) \<le>s 100" by (simp add: word_sle_eq)
  have l: "ToLower ''E'' = ''e''" by code_simp
  have c: "Compile literalRegexp [] = Inr []" by (simp add: literalRegexp_def)
  have p: "deletionPlan literalRegexp (sort_key ImagePushedAt) [exampleImage 7 [] 10] 100
      \<lparr>regExp = [], action = ''e''\<rparr> = Inr [exampleImage 7 [] 10]"
    by (simp add: deletionPlan_def separateHavingTag_filter exampleImage_def candidates_def
        filterTags_empty_pattern imagesToRemove_Nil [OF k])
  have b: "batches [exampleImage 7 [] 10] = [[exampleImage 7 [] 10]]"
    by (simp add: batches_def sliceFrom_def)
  have e: "executePlan (singlePage [exampleImage 7 [] 10])
       \<lparr>registry = (), calls = [DescribeImages ''repo'' None]\<rparr> ''repo''
       [exampleImage 7 [] 10] False =
     (None, \<lparr>registry = (), calls = [DescribeImages ''repo'' None, BatchDeleteImage ''repo'' [7]]\<rparr>)"
  proof -
    have ne: "[exampleImage 7 [] 10] \<noteq> []" by simp
    show ?thesis
      by (simp only: executePlan_deleteInOrder [OF ne] b)
        (simp add: deleteImages_call singlePage_def exampleImage_def)
  qed
  show ?thesis
    by (simp add: main_def Let_def l c getImages_singlePage start_def cleanupImages_def p e)
qed




end
